theory Spec2Isabelle
  imports Main "HOL-Library.Product_Lexorder" "HOL-Library.Multiset"
begin

section \<open>Data model\<close>

text \<open>
  Modelled from the spec: the enum \<open>CandidateStatus\<close> comes from the generated Prisma
  client, whose schema is not among the sources. The services only ever compare a status
  with \<open>APPROVED\<close> (the spec's approval flag), so every other value is one constructor.
\<close>

datatype CandidateStatus = APPROVED | NOT_APPROVED

text \<open>
  Modelled from the spec: the enum \<open>PaymentStatus\<close> also comes from the generated Prisma
  client; the spec gives its values as PENDING, COMPLETED and FAILED, the three the
  services mention.
\<close>

datatype PaymentStatus = PENDING | COMPLETED | FAILED

text \<open>
  A row of \<open>prisma.candidate\<close>, with the columns the leaderboard selects, filters or sorts
  by. JavaScript numbers holding database integers are \<open>int\<close>; dates are \<open>nat\<close> ticks.
\<close>

record Candidate =
  c_id :: string
  c_name :: string
  c_country :: string
  c_city :: string
  c_videoUrl :: string
  c_thumbnailUrl :: "string option"
  c_status :: CandidateStatus
  c_totalVotes :: int
  c_totalRevenue :: int
  c_viewCount :: int
  c_shareCount :: int
  c_createdAt :: nat

text \<open>The interface \<open>LeaderboardEntry\<close>; its two optional fields are options.\<close>

record LeaderboardEntry =
  rank :: int
  candidateId :: string
  name :: string
  country :: string
  city :: string
  videoUrl :: string
  thumbnailUrl :: string
  totalVotes :: int
  totalRevenue :: int
  viewCount :: int
  shareCount :: int
  voteChange :: "int option"
  rankChange :: "int option"

text \<open>The interface \<open>LeaderboardStats\<close>.\<close>

record LeaderboardStats =
  st_totalCandidates :: int
  st_totalVotes :: int
  st_totalRevenue :: int
  st_lastUpdate :: nat

text \<open>
  A JavaScript value, as far as \<open>webhookPayload || {}\<close> tells values apart: \<open>undefined\<close>,
  \<open>null\<close>, \<open>false\<close>, 0, \<open>NaN\<close> and the empty string are falsy, everything else is truthy.
  An object or array is kept as its JSON text.
\<close>

datatype JsValue =
  JsUndefined | JsNull | JsBoolean bool | JsNumber int | JsNaN | JsString string | JsObject string

fun falsy :: "JsValue \<Rightarrow> bool" where
  "falsy JsUndefined = True"
| "falsy JsNull = True"
| "falsy (JsBoolean b) = (\<not> b)"
| "falsy (JsNumber n) = (n = 0)"
| "falsy JsNaN = True"
| "falsy (JsString x) = (x = [])"
| "falsy (JsObject x) = False"

text \<open>
  A row of \<open>prisma.vote\<close> (the payment record), with the columns \<open>confirmPayment\<close> reads
  or writes, and a row of \<open>prisma.transaction\<close>, which belongs to a vote through \<open>voteId\<close>.
\<close>

record Vote =
  v_id :: string
  v_candidateId :: string
  v_amount :: int
  v_paymentStatus :: PaymentStatus
  v_providerTxId :: "string option"
  v_paidAt :: "nat option"
  v_isVerified :: bool
  v_verifiedAt :: "nat option"

record Transaction =
  t_id :: string
  t_voteId :: string
  t_status :: PaymentStatus
  t_webhookPayload :: JsValue

text \<open>What \<open>server.emit\<close> has sent to every connected client.\<close>

record Broadcast =
  b_leaderboard :: "LeaderboardEntry list"
  b_stats :: LeaderboardStats
  b_timestamp :: nat

text \<open>
  The state the services share: the three tables behind \<open>PrismaService\<close>, the two private
  fields of \<open>LeaderboardService\<close>, the messages the gateway has emitted, whether the
  optional \<open>leaderboardGateway\<close> was injected into \<open>VotesService\<close>, and the clock that
  \<open>new Date()\<close> reads.
\<close>

record state =
  candidate_tbl :: "Candidate list"
  vote_tbl :: "Vote list"
  transaction_tbl :: "Transaction list"
  cachedLeaderboard :: "LeaderboardEntry list"
  lastUpdate :: nat
  emitted :: "Broadcast list"
  gatewayInjected :: bool
  now :: nat

section \<open>LeaderboardService\<close>

text \<open>
  The \<open>orderBy\<close> clause of both \<open>findMany\<close> calls: \<open>totalVotes\<close> descending, then
  \<open>totalRevenue\<close> descending, then \<open>createdAt\<close> ascending, as one lexicographic key.
\<close>

definition orderBy :: "Candidate \<Rightarrow> int \<times> int \<times> nat" where
  "orderBy c = (- c_totalVotes c, - c_totalRevenue c, c_createdAt c)"

text \<open>
  \<open>prisma.candidate.findMany\<close> with \<open>where: {status: APPROVED}\<close>, the \<open>orderBy\<close> above and
  \<open>take: limit\<close>. The database sorts; rows that agree on all three keys are left in table
  order here, where the database promises no order at all. The limit is any integer, as
  the controller hands on whatever \<open>parseInt\<close> reads: Prisma takes that many rows from the
  beginning of the ordered list, and for a negative \<open>take\<close> that many from its end, still in
  the list's order.
\<close>

definition findManyApproved :: "Candidate list \<Rightarrow> int \<Rightarrow> Candidate list" where
  "findManyApproved tbl limit =
     (let rows = sort_key orderBy (filter (\<lambda>c. c_status c = APPROVED) tbl)
      in if 0 \<le> limit then take (nat limit) rows
         else drop (length rows - nat (- limit)) rows)"

text \<open>\<open>prisma.candidate.count\<close> with \<open>where: {status: APPROVED}\<close>.\<close>

definition countApproved :: "Candidate list \<Rightarrow> int" where
  "countApproved tbl = int (length (filter (\<lambda>c. c_status c = APPROVED) tbl))"

text \<open>The callback of \<open>candidates.map\<close> in \<open>getLeaderboard\<close>.\<close>

definition toEntry :: "LeaderboardEntry list \<Rightarrow> nat \<times> Candidate \<Rightarrow> LeaderboardEntry" where
  "toEntry cached ic =
     (let index = fst ic; candidate = snd ic;
          previousEntry = find (\<lambda>entry. candidateId entry = c_id candidate) cached
      in \<lparr> rank = int index + 1,
           candidateId = c_id candidate,
           name = c_name candidate,
           country = c_country candidate,
           city = c_city candidate,
           videoUrl = c_videoUrl candidate,
           thumbnailUrl = (case c_thumbnailUrl candidate of None \<Rightarrow> [] | Some u \<Rightarrow> u),
           totalVotes = c_totalVotes candidate,
           totalRevenue = c_totalRevenue candidate,
           viewCount = c_viewCount candidate,
           shareCount = c_shareCount candidate,
           voteChange = Some (case previousEntry of
                                None \<Rightarrow> 0
                              | Some p \<Rightarrow> c_totalVotes candidate - totalVotes p),
           rankChange = Some (case previousEntry of
                                None \<Rightarrow> 0
                              | Some p \<Rightarrow> rank p - (int index + 1)) \<rparr>)"

definition getLeaderboard :: "int \<Rightarrow> state \<Rightarrow> LeaderboardEntry list \<times> state" where
  "getLeaderboard limit s =
     (let candidates = findManyApproved (candidate_tbl s) limit;
          leaderboard = map (toEntry (cachedLeaderboard s)) (enumerate 0 candidates)
      in (leaderboard, s\<lparr> cachedLeaderboard := leaderboard, lastUpdate := now s \<rparr>))"

text \<open>
  \<open>Array.prototype.slice\<close> on integer arguments: a negative index counts from the end,
  and both indices are clamped to the array. The limits of the derived views reach \<open>slice\<close>
  and the loop condition as they come, so they are integers of either sign.
\<close>

definition slice :: "int \<Rightarrow> int \<Rightarrow> 'a list \<Rightarrow> 'a list" where
  "slice b e xs =
     (let len = int (length xs);
          k = (if b < 0 then max (len + b) 0 else min b len);
          final = (if e < 0 then max (len + e) 0 else min e len)
      in take (nat (final - k)) (drop (nat k) xs))"

definition getTopCandidates :: "int \<Rightarrow> state \<Rightarrow> LeaderboardEntry list \<times> state" where
  "getTopCandidates limit s =
     (let (leaderboard, s') = getLeaderboard 100 s
      in (slice 0 limit leaderboard, s'))"

record CandidateRank =
  entry :: "LeaderboardEntry option"
  total :: int

definition getCandidateRank :: "string \<Rightarrow> state \<Rightarrow> CandidateRank \<times> state" where
  "getCandidateRank cid s =
     (let (leaderboard, s') = getLeaderboard 100 s;
          found = find (\<lambda>e. candidateId e = cid) leaderboard;
          count = countApproved (candidate_tbl s')
      in (\<lparr> entry = found, total = count \<rparr>, s'))"

text \<open>
  \<open>getStats\<close>: the aggregate over the approved rows; the sum of no rows is \<open>null\<close> in
  Prisma and \<open>|| 0\<close> makes it 0, which is what \<open>sum_list\<close> gives.
\<close>

definition getStats :: "state \<Rightarrow> LeaderboardStats" where
  "getStats s =
     (let approved = filter (\<lambda>c. c_status c = APPROVED) (candidate_tbl s)
      in \<lparr> st_totalCandidates = int (length approved),
           st_totalVotes = sum_list (map c_totalVotes approved),
           st_totalRevenue = sum_list (map c_totalRevenue approved),
           st_lastUpdate = lastUpdate s \<rparr>)"

definition getCachedLeaderboard :: "state \<Rightarrow> LeaderboardEntry list" where
  "getCachedLeaderboard s = cachedLeaderboard s"

definition refreshLeaderboard :: "state \<Rightarrow> LeaderboardEntry list \<times> state" where
  "refreshLeaderboard s = getLeaderboard 100 s"

record TightRace =
  candidate1 :: LeaderboardEntry
  candidate2 :: LeaderboardEntry
  voteDifference :: int

text \<open>
  The \<open>for\<close> loop of \<open>getTightRaces\<close>, with its index \<open>i\<close> and the array \<open>tightRaces\<close> it
  pushes to. The loop condition keeps \<open>i + 1\<close> inside the array.
\<close>

function tightRacesLoop ::
  "LeaderboardEntry list \<Rightarrow> int \<Rightarrow> nat \<Rightarrow> TightRace list \<Rightarrow> TightRace list" where
  "tightRacesLoop leaderboard limit i tightRaces =
     (if int i < int (length leaderboard) - 1 \<and> int (length tightRaces) < limit
      then (let voteDiff = totalVotes (leaderboard ! i) - totalVotes (leaderboard ! (i + 1))
            in tightRacesLoop leaderboard limit (i + 1)
                 (if voteDiff > 0 \<and> voteDiff \<le> 10
                  then tightRaces @ [\<lparr> candidate1 = leaderboard ! i,
                                       candidate2 = leaderboard ! (i + 1),
                                       voteDifference = voteDiff \<rparr>]
                  else tightRaces))
      else tightRaces)"
  by pat_completeness auto
termination
  by (relation "measure (\<lambda>(leaderboard, limit, i, tightRaces). length leaderboard - i)") auto

declare tightRacesLoop.simps [simp del]

definition getTightRaces :: "int \<Rightarrow> state \<Rightarrow> TightRace list \<times> state" where
  "getTightRaces limit s =
     (let (leaderboard, s') = getLeaderboard 100 s
      in (tightRacesLoop leaderboard limit 0 [], s'))"

text \<open>
  The filter of \<open>getRisingStars\<close>, \<open>entry.voteChange && entry.voteChange > 0\<close>: a missing
  or zero \<open>voteChange\<close> is falsy. Its comparator, \<open>(b.voteChange || 0) - (a.voteChange || 0)\<close>,
  sorts descending; \<open>Array.prototype.sort\<close> is stable, as \<open>sort_key\<close> is.
\<close>

definition rising :: "LeaderboardEntry \<Rightarrow> bool" where
  "rising e = (case voteChange e of None \<Rightarrow> False | Some v \<Rightarrow> v \<noteq> 0 \<and> v > 0)"

definition voteChangeOr0 :: "LeaderboardEntry \<Rightarrow> int" where
  "voteChangeOr0 e = (case voteChange e of None \<Rightarrow> 0 | Some v \<Rightarrow> v)"

definition getRisingStars :: "int \<Rightarrow> state \<Rightarrow> LeaderboardEntry list \<times> state" where
  "getRisingStars limit s =
     (let (leaderboard, s') = getLeaderboard 100 s
      in (slice 0 limit (sort_key (\<lambda>e. - voteChangeOr0 e) (filter rising leaderboard)), s'))"

section \<open>LeaderboardGateway\<close>

text \<open>
  \<open>broadcastLeaderboardUpdate\<close> run without interruption: refresh, read the stats, emit to
  every client. Its \<open>catch\<close> branch is for a failing database, which the tables here never do.
\<close>

definition broadcastLeaderboardUpdate :: "state \<Rightarrow> state" where
  "broadcastLeaderboardUpdate s =
     (let (leaderboard, s') = refreshLeaderboard s;
          stats = getStats s'
      in s'\<lparr> emitted := emitted s' @
               [\<lparr> b_leaderboard = leaderboard, b_stats = stats, b_timestamp = now s' \<rparr>] \<rparr>)"

definition triggerUpdate :: "state \<Rightarrow> state" where
  "triggerUpdate s = broadcastLeaderboardUpdate s"

text \<open>
  The same method as the event loop runs it. Every \<open>await\<close> on the database suspends the
  call, and other callbacks run meanwhile, so a pass that has begun is in one of two places:
  waiting for \<open>findMany\<close> inside \<open>getLeaderboard\<close>, or holding the new leaderboard and
  waiting for the aggregate inside \<open>getStats\<close>. The code between two suspensions runs
  undivided. The rows are read when the answer arrives.
\<close>

datatype pass = AwaitFindMany | AwaitAggregate "LeaderboardEntry list"

record gateway =
  world :: state
  inFlight :: "pass list"

text \<open>
  What the event loop can deliver: the callback of \<open>setInterval\<close> (\<open>Tick\<close>), a call of
  \<open>triggerUpdate\<close>, both of which call \<open>broadcastLeaderboardUpdate\<close>, and the answer of the
  database to the pass at position \<open>k\<close> (\<open>Resume k\<close>).
\<close>

datatype event = Tick | TriggerUpdate | Resume nat

definition resume :: "nat \<Rightarrow> gateway \<Rightarrow> gateway" where
  "resume k g =
     (if k < length (inFlight g)
      then (case inFlight g ! k of
              AwaitFindMany \<Rightarrow>
                (let (leaderboard, s') = getLeaderboard 100 (world g)
                 in g\<lparr> world := s', inFlight := (inFlight g)[k := AwaitAggregate leaderboard] \<rparr>)
            | AwaitAggregate leaderboard \<Rightarrow>
                (let s = world g; stats = getStats s
                 in g\<lparr> world := s\<lparr> emitted := emitted s @
                            [\<lparr> b_leaderboard = leaderboard, b_stats = stats,
                               b_timestamp = now s \<rparr>] \<rparr>,
                       inFlight := take k (inFlight g) @ drop (Suc k) (inFlight g) \<rparr>))
      else g)"

fun step :: "event \<Rightarrow> gateway \<Rightarrow> gateway" where
  "step Tick g = g\<lparr> inFlight := inFlight g @ [AwaitFindMany] \<rparr>"
| "step TriggerUpdate g = g\<lparr> inFlight := inFlight g @ [AwaitFindMany] \<rparr>"
| "step (Resume k) g = resume k g"

fun run :: "event list \<Rightarrow> gateway \<Rightarrow> gateway" where
  "run [] g = g"
| "run (e # es) g = run es (step e g)"

fun starts :: "event \<Rightarrow> bool" where
  "starts Tick = True"
| "starts TriggerUpdate = True"
| "starts (Resume k) = False"

section \<open>VotesService\<close>

text \<open>Prisma's error for an \<open>update\<close> whose \<open>where\<close> matches no row.\<close>

datatype PrismaError = RecordNotFound

text \<open>
  \<open>confirmPayment\<close>. \<open>findFirst\<close> takes the first vote with the provider reference;
  \<open>update\<close> with \<open>where: {id}\<close> rewrites the rows with that id; a field set to \<open>undefined\<close>
  keeps its value. A write made before an exception stays made, so the state is returned
  beside the error. The call of \<open>triggerUpdate\<close> is awaited, and whatever it throws is caught.
\<close>

definition updateVote :: "PaymentStatus \<Rightarrow> nat \<Rightarrow> Vote \<Rightarrow> Vote" where
  "updateVote status t v =
     v\<lparr> v_paymentStatus := status,
        v_paidAt := (if status = COMPLETED then Some t else v_paidAt v),
        v_isVerified := (status = COMPLETED),
        v_verifiedAt := (if status = COMPLETED then Some t else v_verifiedAt v) \<rparr>"

definition updateTransaction :: "PaymentStatus \<Rightarrow> JsValue \<Rightarrow> Transaction \<Rightarrow> Transaction" where
  "updateTransaction status webhookPayload t =
     t\<lparr> t_status := status,
        t_webhookPayload := (if falsy webhookPayload then JsObject ''{}'' else webhookPayload) \<rparr>"

definition incrementCandidate :: "int \<Rightarrow> Candidate \<Rightarrow> Candidate" where
  "incrementCandidate amount c =
     c\<lparr> c_totalVotes := c_totalVotes c + 1, c_totalRevenue := c_totalRevenue c + amount \<rparr>"

definition confirmPayment ::
  "string \<Rightarrow> PaymentStatus \<Rightarrow> JsValue \<Rightarrow> state \<Rightarrow> (PrismaError + Vote option) \<times> state" where
  "confirmPayment providerTxId status webhookPayload s =
     (case find (\<lambda>v. v_providerTxId v = Some providerTxId) (vote_tbl s) of
        None \<Rightarrow> (Inr None, s)
      | Some vote \<Rightarrow>
          if v_paymentStatus vote = COMPLETED then (Inr (Some vote), s)
          else
            (let updatedVote = updateVote status (now s) vote;
                 s1 = s\<lparr> vote_tbl :=
                          map (\<lambda>v. if v_id v = v_id vote then updateVote status (now s) v else v)
                            (vote_tbl s) \<rparr>;
                 s2 = (case find (\<lambda>t. t_voteId t = v_id vote) (transaction_tbl s1) of
                         None \<Rightarrow> s1
                       | Some transaction \<Rightarrow>
                           s1\<lparr> transaction_tbl :=
                                 map (\<lambda>t. if t_id t = t_id transaction
                                          then updateTransaction status webhookPayload t else t)
                                   (transaction_tbl s1) \<rparr>)
             in if status = COMPLETED
                then (if v_candidateId vote \<in> set (map c_id (candidate_tbl s2))
                      then (let s3 = s2\<lparr> candidate_tbl :=
                                          map (\<lambda>c. if c_id c = v_candidateId vote
                                                   then incrementCandidate (v_amount vote) c else c)
                                            (candidate_tbl s2) \<rparr>;
                                s4 = (if gatewayInjected s3 then triggerUpdate s3 else s3)
                            in (Inr (Some updatedVote), s4))
                      else (Inl RecordNotFound, s2))
                else (Inr (Some updatedVote), s2)))"


text \<open>
  The same method as the event loop runs it. Each \<open>await\<close> suspends the call until the
  database answers, and other deliveries are served meanwhile; nothing in the method is a
  transaction. A call is therefore at one of its awaits, holding the locals it has bound so
  far (the \<open>vote\<close> it read with its \<open>transaction\<close>, the \<open>updatedVote\<close>), or it has returned.
  The awaited \<open>triggerUpdate\<close> has the two awaits of a broadcast. A row is read or
  written when the answer arrives; an \<open>update\<close> that finds no row throws.
\<close>

datatype call =
    AwaitFindFirst string PaymentStatus JsValue
  | AwaitVoteUpdate Vote "Transaction option" PaymentStatus JsValue
  | AwaitTransactionUpdate Vote Transaction Vote PaymentStatus JsValue
  | AwaitCandidateUpdate Vote Vote
  | AwaitTriggerFindMany Vote
  | AwaitTriggerAggregate Vote "LeaderboardEntry list"
  | Returned "PrismaError + Vote option"

text \<open>Step 5 of the method, reached after steps 3 and 4: \<open>if (status === COMPLETED)\<close>.\<close>

definition afterTransaction :: "Vote \<Rightarrow> Vote \<Rightarrow> PaymentStatus \<Rightarrow> call" where
  "afterTransaction vote updatedVote status =
     (if status = COMPLETED then AwaitCandidateUpdate vote updatedVote
      else Returned (Inr (Some updatedVote)))"

fun advance :: "call \<Rightarrow> state \<Rightarrow> call \<times> state" where
  "advance (AwaitFindFirst providerTxId status webhookPayload) s =
     (case find (\<lambda>v. v_providerTxId v = Some providerTxId) (vote_tbl s) of
        None \<Rightarrow> (Returned (Inr None), s)
      | Some vote \<Rightarrow>
          if v_paymentStatus vote = COMPLETED then (Returned (Inr (Some vote)), s)
          else (AwaitVoteUpdate vote (find (\<lambda>t. t_voteId t = v_id vote) (transaction_tbl s))
                  status webhookPayload, s))"
| "advance (AwaitVoteUpdate vote transaction status webhookPayload) s =
     (case find (\<lambda>v. v_id v = v_id vote) (vote_tbl s) of
        None \<Rightarrow> (Returned (Inl RecordNotFound), s)
      | Some row \<Rightarrow>
          (let updatedVote = updateVote status (now s) row;
               s1 = s\<lparr> vote_tbl :=
                        map (\<lambda>v. if v_id v = v_id vote then updateVote status (now s) v else v)
                          (vote_tbl s) \<rparr>
           in (case transaction of
                 None \<Rightarrow> afterTransaction vote updatedVote status
               | Some t \<Rightarrow> AwaitTransactionUpdate vote t updatedVote status webhookPayload,
               s1)))"
| "advance (AwaitTransactionUpdate vote transaction updatedVote status webhookPayload) s =
     (if t_id transaction \<in> set (map t_id (transaction_tbl s))
      then (afterTransaction vote updatedVote status,
            s\<lparr> transaction_tbl :=
                  map (\<lambda>t. if t_id t = t_id transaction
                           then updateTransaction status webhookPayload t else t)
                    (transaction_tbl s) \<rparr>)
      else (Returned (Inl RecordNotFound), s))"
| "advance (AwaitCandidateUpdate vote updatedVote) s =
     (if v_candidateId vote \<in> set (map c_id (candidate_tbl s))
      then (let s3 = s\<lparr> candidate_tbl :=
                          map (\<lambda>c. if c_id c = v_candidateId vote
                                   then incrementCandidate (v_amount vote) c else c)
                            (candidate_tbl s) \<rparr>
            in (if gatewayInjected s3 then AwaitTriggerFindMany updatedVote
                else Returned (Inr (Some updatedVote)), s3))
      else (Returned (Inl RecordNotFound), s))"
| "advance (AwaitTriggerFindMany updatedVote) s =
     (let (leaderboard, s') = getLeaderboard 100 s
      in (AwaitTriggerAggregate updatedVote leaderboard, s'))"
| "advance (AwaitTriggerAggregate updatedVote leaderboard) s =
     (Returned (Inr (Some updatedVote)),
      s\<lparr> emitted := emitted s @
            [\<lparr> b_leaderboard = leaderboard, b_stats = getStats s, b_timestamp = now s \<rparr>] \<rparr>)"
| "advance (Returned result) s = (Returned result, s)"

text \<open>
  The webhook endpoint: the store and the calls of \<open>confirmPayment\<close> that have begun. A
  delivery begins a call; an answer of the database moves the call at position \<open>k\<close> to its
  next await or to its return.
\<close>

record server =
  db :: state
  calls :: "call list"

datatype delivery = Deliver string PaymentStatus JsValue | Answer nat

fun deliver :: "delivery \<Rightarrow> server \<Rightarrow> server" where
  "deliver (Deliver providerTxId status webhookPayload) g =
     g\<lparr> calls := calls g @ [AwaitFindFirst providerTxId status webhookPayload] \<rparr>"
| "deliver (Answer k) g =
     (if k < length (calls g)
      then (let (c, s) = advance (calls g ! k) (db g)
            in \<lparr> db = s, calls = (calls g)[k := c] \<rparr>)
      else g)"

fun serve :: "delivery list \<Rightarrow> server \<Rightarrow> server" where
  "serve [] g = g"
| "serve (e # es) g = serve es (deliver e g)"



section \<open>Concrete stores\<close>

definition mkCandidate :: "string \<Rightarrow> int \<Rightarrow> int \<Rightarrow> nat \<Rightarrow> Candidate" where
  "mkCandidate i v r t =
     \<lparr> c_id = i, c_name = i, c_country = ''CM'', c_city = ''Douala'', c_videoUrl = ''v'',
       c_thumbnailUrl = None, c_status = APPROVED, c_totalVotes = v, c_totalRevenue = r,
       c_viewCount = 0, c_shareCount = 0, c_createdAt = t \<rparr>"

definition initial :: "Candidate list \<Rightarrow> state" where
  "initial tbl =
     \<lparr> candidate_tbl = tbl, vote_tbl = [], transaction_tbl = [], cachedLeaderboard = [],
       lastUpdate = 0, emitted = [], gatewayInjected = True, now = 1 \<rparr>"

text \<open>\<open>n\<close> approved candidates with distinct ids, created one after the other.\<close>

definition crowd :: "nat \<Rightarrow> Candidate list" where
  "crowd n = map (\<lambda>k. mkCandidate (replicate (Suc k) CHR ''c'') 0 0 k) [0..<n]"

text \<open>The spec's scenario: A, B and C, created in this order.\<close>

definition scenarioABC :: state where
  "scenarioABC = initial [mkCandidate ''A'' 100 10000 1, mkCandidate ''B'' 100 9500 2,
                          mkCandidate ''C'' 95 20000 3]"



text \<open>
  The state one recompute after the scenario: the cache holds the ranking A, B, C and the
  table has changed since (A has five more votes, C nine more, D is new).
\<close>

definition scenarioNext :: state where
  "scenarioNext =
     (snd (getLeaderboard 100 scenarioABC))
       \<lparr> candidate_tbl := [mkCandidate ''A'' 105 10500 1, mkCandidate ''B'' 100 9500 2,
                           mkCandidate ''C'' 104 20900 3, mkCandidate ''D'' 0 0 4] \<rparr>"

text \<open>A webhook endpoint that has begun no call.\<close>

definition idleServer :: "state \<Rightarrow> server" where
  "idleServer s = \<lparr> db = s, calls = [] \<rparr>"



text \<open>A gateway with no pass in flight.\<close>

definition idle :: "state \<Rightarrow> gateway" where
  "idle s = \<lparr> world = s, inFlight = [] \<rparr>"

section \<open>Specification predicates\<close>

text \<open>
  The spec's sort key, in its own words: \<open>a\<close> may stand before \<open>b\<close> when it has more votes,
  or as many votes and more revenue, or as many of both and was not created later.
\<close>

definition rankedBefore :: "Candidate \<Rightarrow> Candidate \<Rightarrow> bool" where
  "rankedBefore a b \<longleftrightarrow>
     c_totalVotes a > c_totalVotes b \<or>
     (c_totalVotes a = c_totalVotes b \<and>
        (c_totalRevenue a > c_totalRevenue b \<or>
         (c_totalRevenue a = c_totalRevenue b \<and> c_createdAt a \<le> c_createdAt b)))"

text \<open>The same order as far as an entry shows it: an entry has no creation time.\<close>

definition entryBefore :: "LeaderboardEntry \<Rightarrow> LeaderboardEntry \<Rightarrow> bool" where
  "entryBefore a b \<longleftrightarrow>
     totalVotes a > totalVotes b \<or> (totalVotes a = totalVotes b \<and> totalRevenue a \<ge> totalRevenue b)"

text \<open>
  Tight races in the spec's words: of the adjacent pairs of the snapshot, those whose vote
  difference is above 0 and at most 10, in snapshot order, cut to the requested limit.
\<close>

definition tight :: "LeaderboardEntry \<times> LeaderboardEntry \<Rightarrow> bool" where
  "tight ab \<longleftrightarrow> 0 < totalVotes (fst ab) - totalVotes (snd ab)
                \<and> totalVotes (fst ab) - totalVotes (snd ab) \<le> 10"

definition race :: "LeaderboardEntry \<times> LeaderboardEntry \<Rightarrow> TightRace" where
  "race ab = \<lparr> candidate1 = fst ab, candidate2 = snd ab,
               voteDifference = totalVotes (fst ab) - totalVotes (snd ab) \<rparr>"

definition tightRacesSpec :: "LeaderboardEntry list \<Rightarrow> int \<Rightarrow> TightRace list" where
  "tightRacesSpec leaderboard limit =
     take (nat limit) (map race (filter tight (zip leaderboard (tl leaderboard))))"

section \<open>Invariants of the webhook endpoint\<close>






section \<open>Ranks of a snapshot\<close>

lemma findManyApproved_100:
  "findManyApproved tbl 100 = take 100 (sort_key orderBy (filter (\<lambda>c. c_status c = APPROVED) tbl))"
  by (simp add: findManyApproved_def)

lemma length_findManyApproved:
  "length (findManyApproved tbl limit) =
     min (nat \<bar>limit\<bar>) (length (filter (\<lambda>c. c_status c = APPROVED) tbl))"
  by (auto simp: findManyApproved_def Let_def)

lemma length_getLeaderboard:
  "length (fst (getLeaderboard limit s)) =
     min (nat \<bar>limit\<bar>) (length (filter (\<lambda>c. c_status c = APPROVED) (candidate_tbl s)))"
  by (simp add: getLeaderboard_def Let_def length_findManyApproved)

lemma rank_toEntry: "rank (toEntry cached ic) = int (fst ic) + 1"
  by (simp add: toEntry_def Let_def)

lemma map_rank_enumerate:
  "map (\<lambda>ic. rank (toEntry cached ic)) (enumerate n cs) = map (\<lambda>i. int i + 1) [n..<n + length cs]"
proof -
  have "map (\<lambda>ic. rank (toEntry cached ic)) (enumerate n cs)
          = map (\<lambda>i. int i + 1) (map fst (enumerate n cs))"
    by (simp only: rank_toEntry map_map comp_def)
  then show ?thesis
    by (simp only: map_fst_enumerate)
qed

lemma map_rank_getLeaderboard:
  "map rank (fst (getLeaderboard limit s)) = map (\<lambda>i. int i + 1) [0..<length (fst (getLeaderboard limit s))]"
  using map_rank_enumerate [of "cachedLeaderboard s" 0 "findManyApproved (candidate_tbl s) limit"]
  by (simp add: getLeaderboard_def Let_def comp_def)

lemma map_succ_upt: "map (\<lambda>i. int i + 1) [0..<n] = [1..int n]"
  by (rule nth_equalityI) simp_all

lemma fst_getLeaderboard:
  "fst (getLeaderboard limit s)
     = map (toEntry (cachedLeaderboard s)) (enumerate 0 (findManyApproved (candidate_tbl s) limit))"
  by (simp add: getLeaderboard_def Let_def)

lemma snd_getLeaderboard:
  "snd (getLeaderboard limit s)
     = s\<lparr> cachedLeaderboard := fst (getLeaderboard limit s), lastUpdate := now s \<rparr>"
  by (simp add: getLeaderboard_def Let_def)

lemma filter_crowd: "filter (\<lambda>c. c_status c = APPROVED) (crowd n) = crowd n"
  by (simp add: crowd_def mkCandidate_def)

lemma length_crowd: "length (crowd n) = n"
  by (simp add: crowd_def)

text \<open>
  Claim C1, as amended. For every integer limit, the ranks of the entries \<open>getLeaderboard\<close>
  returns are exactly 1, 2, ..., M in this order, where M is the smaller of the size of the
  limit (its absolute value: a negative limit takes that many rows from the end) and the
  number of APPROVED candidates in the table.
\<close>

theorem getLeaderboard_ranks:
  "map rank (fst (getLeaderboard limit s))
     = [1..min \<bar>limit\<bar> (countApproved (candidate_tbl s))]"
proof -
  have "int (length (fst (getLeaderboard limit s)))
          = min \<bar>limit\<bar> (countApproved (candidate_tbl s))"
    by (simp add: length_getLeaderboard countApproved_def)
  then show ?thesis
    by (simp add: map_rank_getLeaderboard map_succ_upt)
qed

text \<open>
  Claim C1 as stated fails: with 101 approved candidates and the limit 100 that every
  caller inside the service uses, the ranks are not 1..101.
\<close>

theorem getLeaderboard_ranks_counterexample:
  "map rank (fst (getLeaderboard 100 (initial (crowd 101))))
     \<noteq> [1..countApproved (candidate_tbl (initial (crowd 101)))]"
proof
  assume "map rank (fst (getLeaderboard 100 (initial (crowd 101))))
     = [1..countApproved (candidate_tbl (initial (crowd 101)))]"
  then have "length (map rank (fst (getLeaderboard 100 (initial (crowd 101)))))
     = length [1..countApproved (candidate_tbl (initial (crowd 101)))]"
    by (rule arg_cong)
  then show False
    by (simp add: length_getLeaderboard countApproved_def initial_def filter_crowd length_crowd)
qed

section \<open>Order of a snapshot\<close>

lemma orderBy_le: "orderBy a \<le> orderBy b \<Longrightarrow> rankedBefore a b"
  by (auto simp: orderBy_def rankedBefore_def)

lemma sorted_findManyApproved: "sorted_wrt rankedBefore (findManyApproved tbl limit)"
proof -
  let ?xs = "sort_key orderBy (filter (\<lambda>c. c_status c = APPROVED) tbl)"
  have "sorted (map orderBy ?xs)"
    by (rule sorted_sort_key)
  then have "sorted_wrt (\<lambda>a b. orderBy a \<le> orderBy b) ?xs"
    by (simp add: sorted_map)
  then have "sorted_wrt rankedBefore ?xs"
    by (rule sorted_wrt_mono_rel [rotated]) (simp add: orderBy_le)
  then show ?thesis
    by (simp add: findManyApproved_def Let_def sorted_wrt_take sorted_wrt_drop)
qed

lemma map_copy_enumerate:
  assumes "\<And>ic. f (toEntry cached ic) = g (snd ic)"
  shows "map f (map (toEntry cached) (enumerate n cs)) = map g cs"
proof -
  have "map f (map (toEntry cached) (enumerate n cs)) = map g (map snd (enumerate n cs))"
    by (simp only: map_map comp_def assms)
  then show ?thesis
    by (simp only: map_snd_enumerate)
qed

lemma map_fields_getLeaderboard:
  "map candidateId (fst (getLeaderboard limit s)) = map c_id (findManyApproved (candidate_tbl s) limit)"
  "map totalVotes (fst (getLeaderboard limit s)) = map c_totalVotes (findManyApproved (candidate_tbl s) limit)"
  "map totalRevenue (fst (getLeaderboard limit s)) = map c_totalRevenue (findManyApproved (candidate_tbl s) limit)"
  unfolding fst_getLeaderboard
  by (rule map_copy_enumerate, simp add: toEntry_def Let_def)+

lemma sorted_entries: "sorted_wrt entryBefore (fst (getLeaderboard limit s))"
proof -
  let ?cs = "findManyApproved (candidate_tbl s) limit"
  let ?cached = "cachedLeaderboard s"
  have "sorted_wrt rankedBefore (map snd (enumerate 0 ?cs))"
    by (simp only: map_snd_enumerate sorted_findManyApproved)
  then have "sorted_wrt (\<lambda>x y. rankedBefore (snd x) (snd y)) (enumerate 0 ?cs)"
    by (simp only: sorted_wrt_map)
  then have "sorted_wrt (\<lambda>x y. entryBefore (toEntry ?cached x) (toEntry ?cached y)) (enumerate 0 ?cs)"
    by (rule sorted_wrt_mono_rel [rotated])
       (auto simp: rankedBefore_def entryBefore_def toEntry_def Let_def)
  then show ?thesis
    by (simp only: fst_getLeaderboard sorted_wrt_map)
qed

text \<open>
  Claim C5. The rows behind a snapshot are sorted by votes descending, then revenue
  descending, then creation time ascending; the entries carry the ids, votes and revenues
  of these rows in the same order, so they are sorted by votes and then revenue
  themselves, and their ranks are their 1-based positions. In the
  scenario A(100, 10000), B(100, 9500), C(95, 20000), created in this order, A has rank 1,
  B rank 2 and C rank 3.
\<close>

theorem getLeaderboard_sorted:
  "sorted_wrt rankedBefore (findManyApproved (candidate_tbl s) limit)
   \<and> map candidateId (fst (getLeaderboard limit s)) = map c_id (findManyApproved (candidate_tbl s) limit)
   \<and> map totalVotes (fst (getLeaderboard limit s)) = map c_totalVotes (findManyApproved (candidate_tbl s) limit)
   \<and> map totalRevenue (fst (getLeaderboard limit s)) = map c_totalRevenue (findManyApproved (candidate_tbl s) limit)
   \<and> sorted_wrt entryBefore (fst (getLeaderboard limit s))
   \<and> map rank (fst (getLeaderboard limit s)) = [1..int (length (fst (getLeaderboard limit s)))]
   \<and> map (\<lambda>e. (candidateId e, rank e)) (fst (getLeaderboard 100 scenarioABC))
       = [(''A'', 1), (''B'', 2), (''C'', 3)]"
proof -
  have "map (\<lambda>e. (candidateId e, rank e)) (fst (getLeaderboard 100 scenarioABC))
       = [(''A'', 1), (''B'', 2), (''C'', 3)]"
    by code_simp
  then show ?thesis
    by (simp add: sorted_findManyApproved map_fields_getLeaderboard sorted_entries
          map_rank_getLeaderboard map_succ_upt)
qed

section \<open>Deltas of a snapshot\<close>

lemma toEntry_deltas:
  "let e = toEntry cached ic in
     (case find (\<lambda>p. candidateId p = candidateId e) cached of
        None \<Rightarrow> voteChange e = Some 0 \<and> rankChange e = Some 0
      | Some p \<Rightarrow> voteChange e = Some (totalVotes e - totalVotes p)
                 \<and> rankChange e = Some (rank p - rank e))"
  by (simp add: toEntry_def Let_def split: option.split)

text \<open>
  Claim C6. Let \<open>e\<close> be an entry of the snapshot \<open>getLeaderboard\<close> builds over the cached
  (previous) snapshot. If the id of \<open>e\<close> occurs in the previous snapshot, then with \<open>p\<close> the
  previous entry of that id, \<open>voteChange\<close> is the votes of \<open>e\<close> minus the votes of \<open>p\<close> and
  \<open>rankChange\<close> is the rank of \<open>p\<close> minus the rank of \<open>e\<close>; if it does not occur, both are 0.
\<close>

theorem getLeaderboard_deltas:
  assumes "e \<in> set (fst (getLeaderboard limit s))"
  shows "(candidateId e \<in> candidateId ` set (cachedLeaderboard s) \<longrightarrow>
           (\<exists>p. find (\<lambda>p. candidateId p = candidateId e) (cachedLeaderboard s) = Some p
                \<and> voteChange e = Some (totalVotes e - totalVotes p)
                \<and> rankChange e = Some (rank p - rank e)))
       \<and> (candidateId e \<notin> candidateId ` set (cachedLeaderboard s) \<longrightarrow>
           voteChange e = Some 0 \<and> rankChange e = Some 0)"
proof -
  from assms obtain ic where e: "e = toEntry (cachedLeaderboard s) ic"
    by (auto simp: fst_getLeaderboard)
  let ?prev = "find (\<lambda>p. candidateId p = candidateId e) (cachedLeaderboard s)"
  show ?thesis
  proof (cases ?prev)
    case None
    then have "candidateId e \<notin> candidateId ` set (cachedLeaderboard s)"
      by (auto simp: find_None_iff)
    with None toEntry_deltas [of "cachedLeaderboard s" ic] show ?thesis
      by (simp add: e Let_def)
  next
    case (Some p)
    then have "?prev \<noteq> None"
      by simp
    then have "candidateId e \<in> candidateId ` set (cachedLeaderboard s)"
      by (metis (mono_tags, lifting) find_None_iff image_eqI)
    with Some toEntry_deltas [of "cachedLeaderboard s" ic] show ?thesis
      by (simp add: e Let_def)
  qed
qed

text \<open>
  The theorem at work: the previous snapshot ranks A, B, C; in the new one C, present
  before with 95 votes and rank 3, has rank 2 with 104 votes, and D is new.
\<close>

theorem getLeaderboard_deltas_witness:
  "map (\<lambda>e. (candidateId e, totalVotes e, rank e, voteChange e, rankChange e))
       (fst (getLeaderboard 100 scenarioNext))
     = [(''A'', 105, 1, Some 5, Some 0), (''C'', 104, 2, Some 9, Some 1),
        (''B'', 100, 3, Some 0, Some (- 1)), (''D'', 0, 4, Some 0, Some 0)]
   \<and> map (\<lambda>e. (candidateId e, totalVotes e, rank e)) (cachedLeaderboard scenarioNext)
     = [(''A'', 100, 1), (''B'', 100, 2), (''C'', 95, 3)]
   \<and> (\<exists>p. find (\<lambda>p. candidateId p = ''C'') (cachedLeaderboard scenarioNext) = Some p
          \<and> voteChange (fst (getLeaderboard 100 scenarioNext) ! 1) = Some (104 - totalVotes p)
          \<and> rankChange (fst (getLeaderboard 100 scenarioNext) ! 1) = Some (rank p - 2))
   \<and> voteChange (fst (getLeaderboard 100 scenarioNext) ! 3) = Some 0
   \<and> rankChange (fst (getLeaderboard 100 scenarioNext) ! 3) = Some 0"
proof -
  let ?lb = "fst (getLeaderboard 100 scenarioNext)"
  have lb: "map (\<lambda>e. (candidateId e, totalVotes e, rank e, voteChange e, rankChange e)) ?lb
     = [(''A'', 105, 1, Some 5, Some 0), (''C'', 104, 2, Some 9, Some 1),
        (''B'', 100, 3, Some 0, Some (- 1)), (''D'', 0, 4, Some 0, Some 0)]"
    by code_simp
  have prev: "map (\<lambda>e. (candidateId e, totalVotes e, rank e)) (cachedLeaderboard scenarioNext)
     = [(''A'', 100, 1), (''B'', 100, 2), (''C'', 95, 3)]"
    by code_simp
  have len: "length ?lb = 4"
    using arg_cong [OF lb, of length] by simp
  have ids: "candidateId (?lb ! 1) = ''C''" "totalVotes (?lb ! 1) = 104" "rank (?lb ! 1) = 2"
            "candidateId (?lb ! 3) = ''D''"
    using arg_cong [OF lb, of "\<lambda>xs. xs ! 1"] arg_cong [OF lb, of "\<lambda>xs. xs ! 3"] len
    by simp_all
  have mem: "?lb ! 1 \<in> set ?lb" "?lb ! 3 \<in> set ?lb"
    using len by simp_all
  have pres: "''C'' \<in> candidateId ` set (cachedLeaderboard scenarioNext)"
    and abs: "''D'' \<notin> candidateId ` set (cachedLeaderboard scenarioNext)"
    using arg_cong [OF prev, of "\<lambda>xs. set (map fst xs)"] by (auto simp: image_iff)
  from getLeaderboard_deltas [OF mem(1)] getLeaderboard_deltas [OF mem(2)] pres abs lb prev
  show ?thesis
    by (simp only: ids) simp
qed

section \<open>Tight races\<close>

lemma nth_adjacent:
  "Suc i < length xs \<Longrightarrow> zip xs (tl xs) ! i = (xs ! i, xs ! Suc i)"
  by (simp add: nth_tl)

lemma drop_adjacent:
  assumes "Suc i < length xs"
  shows "drop i (zip xs (tl xs)) = (xs ! i, xs ! Suc i) # drop (Suc i) (zip xs (tl xs))"
proof -
  have "i < length (zip xs (tl xs))"
    using assms by simp
  then have "drop i (zip xs (tl xs)) = zip xs (tl xs) ! i # drop (Suc i) (zip xs (tl xs))"
    by (rule Cons_nth_drop_Suc [symmetric])
  then show ?thesis
    by (simp only: nth_adjacent [OF assms])
qed

text \<open>
  The loop from index \<open>i\<close> with \<open>acc\<close> pushed so far appends the tight pairs from \<open>i\<close> on
  until \<open>limit\<close> are held.
\<close>

lemma tightRacesLoop_closed:
  "tightRacesLoop lb limit i acc =
     (if int (length acc) < limit
      then acc @ take (nat limit - length acc)
                   (map race (filter tight (drop i (zip lb (tl lb)))))
      else acc)"
proof (induction lb limit i acc rule: tightRacesLoop.induct)
  case (1 lb limit i acc)
  let ?zs = "zip lb (tl lb)"
  show ?case
  proof (cases "int i < int (length lb) - 1 \<and> int (length acc) < limit")
    case False
    then have "int (length acc) < limit \<Longrightarrow> drop i ?zs = []"
      by auto
    with False show ?thesis
      by (subst tightRacesLoop.simps) auto
  next
    case True
    then have i: "Suc i < length lb" and room: "int (length acc) < limit"
      by auto
    let ?d = "totalVotes (lb ! i) - totalVotes (lb ! (i + 1))"
    let ?acc' = "if ?d > 0 \<and> ?d \<le> 10
                 then acc @ [\<lparr> candidate1 = lb ! i, candidate2 = lb ! (i + 1), voteDifference = ?d \<rparr>]
                 else acc"
    have unfold: "tightRacesLoop lb limit i acc = tightRacesLoop lb limit (i + 1) ?acc'"
      using True by (subst tightRacesLoop.simps) (simp add: Let_def)
    have IH: "tightRacesLoop lb limit (i + 1) ?acc' =
        (if int (length ?acc') < limit
         then ?acc' @ take (nat limit - length ?acc') (map race (filter tight (drop (i + 1) ?zs)))
         else ?acc')"
      using "1.IH" [OF True refl] .
    have dr: "drop i ?zs = (lb ! i, lb ! Suc i) # drop (Suc i) ?zs"
      using i by (rule drop_adjacent)
    show ?thesis
    proof (cases "?d > 0 \<and> ?d \<le> 10")
      case False
      then have "\<not> tight (lb ! i, lb ! Suc i)"
        by (simp add: tight_def)
      with False room show ?thesis
        unfolding unfold IH dr by auto
    next
      case q: True
      then have t: "tight (lb ! i, lb ! Suc i)"
        by (simp add: tight_def)
      have pos: "nat limit - length acc = Suc (nat limit - Suc (length acc))"
        using room by linarith
      from q t room show ?thesis
        unfolding unfold IH dr by (auto simp: race_def pos)
    qed
  qed
qed

lemma tightRacesLoop_refines: "tightRacesLoop lb limit 0 [] = tightRacesSpec lb limit"
  by (simp add: tightRacesLoop_closed tightRacesSpec_def)


lemma rank_nth_getLeaderboard:
  assumes "k < length (fst (getLeaderboard limit s))"
  shows "rank (fst (getLeaderboard limit s) ! k) = int k + 1"
proof -
  have "map rank (fst (getLeaderboard limit s)) ! k
          = map (\<lambda>i. int i + 1) [0..<length (fst (getLeaderboard limit s))] ! k"
    by (simp only: map_rank_getLeaderboard)
  with assms show ?thesis
    by simp
qed

lemma adjacent_getLeaderboard:
  assumes "ab \<in> set (zip (fst (getLeaderboard limit s)) (tl (fst (getLeaderboard limit s))))"
  shows "fst ab \<in> set (fst (getLeaderboard limit s))
       \<and> snd ab \<in> set (fst (getLeaderboard limit s))
       \<and> rank (snd ab) = rank (fst ab) + 1"
proof -
  let ?lb = "fst (getLeaderboard limit s)"
  from assms obtain k where k: "k < length (zip ?lb (tl ?lb))" and ab: "ab = zip ?lb (tl ?lb) ! k"
    by (auto simp: in_set_conv_nth)
  from k have k': "Suc k < length ?lb"
    by simp
  with ab have "ab = (?lb ! k, ?lb ! Suc k)"
    by (simp only: nth_adjacent)
  with k' show ?thesis
    by (simp add: rank_nth_getLeaderboard)
qed

lemma adjacent_getLeaderboard_sorted:
  "sorted_wrt (\<lambda>p q. rank (fst p) < rank (fst q))
     (zip (fst (getLeaderboard limit s)) (tl (fst (getLeaderboard limit s))))"
proof -
  let ?lb = "fst (getLeaderboard limit s)"
  have "rank (fst (zip ?lb (tl ?lb) ! i)) < rank (fst (zip ?lb (tl ?lb) ! j))"
    if "i < j" "j < length (zip ?lb (tl ?lb))" for i j
  proof -
    from that have "Suc i < length ?lb" "Suc j < length ?lb"
      by simp_all
    with that(1) show ?thesis
      by (simp add: nth_adjacent rank_nth_getLeaderboard)
  qed
  then show ?thesis
    by (simp only: sorted_wrt_iff_nth_less) blast
qed

lemma fst_getTightRaces:
  "fst (getTightRaces limit s) = tightRacesSpec (fst (getLeaderboard 100 s)) limit"
  by (simp add: getTightRaces_def tightRacesLoop_refines split: prod.split)

lemma snd_getTightRaces: "snd (getTightRaces limit s) = snd (getLeaderboard 100 s)"
  by (simp add: getTightRaces_def split: prod.split)

text \<open>
  Claim C7. Every pair \<open>getTightRaces\<close> returns consists of two entries of the snapshot
  with consecutive ranks k and k + 1, its vote difference d is the difference of their
  votes and satisfies 0 < d and d \<le> 10; the pairs come in ascending rank order; and there
  are at most \<open>limit\<close> of them (none when the limit is 0 or negative).
\<close>

theorem getTightRaces_pairs:
  "(\<forall>r \<in> set (fst (getTightRaces limit s)).
       candidate1 r \<in> set (fst (getLeaderboard 100 s))
     \<and> candidate2 r \<in> set (fst (getLeaderboard 100 s))
     \<and> rank (candidate2 r) = rank (candidate1 r) + 1
     \<and> voteDifference r = totalVotes (candidate1 r) - totalVotes (candidate2 r)
     \<and> 0 < voteDifference r \<and> voteDifference r \<le> 10)
   \<and> sorted_wrt (\<lambda>a b. rank (candidate1 a) < rank (candidate1 b)) (fst (getTightRaces limit s))
   \<and> int (length (fst (getTightRaces limit s))) \<le> max 0 limit"
proof -
  let ?lb = "fst (getLeaderboard 100 s)"
  let ?zs = "zip ?lb (tl ?lb)"
  have each: "candidate1 r \<in> set ?lb \<and> candidate2 r \<in> set ?lb
       \<and> rank (candidate2 r) = rank (candidate1 r) + 1
       \<and> voteDifference r = totalVotes (candidate1 r) - totalVotes (candidate2 r)
       \<and> 0 < voteDifference r \<and> voteDifference r \<le> 10"
    if "r \<in> set (fst (getTightRaces limit s))" for r
  proof -
    from that have "r \<in> set (map race (filter tight ?zs))"
      unfolding fst_getTightRaces tightRacesSpec_def by (rule in_set_takeD)
    then obtain ab where ab: "ab \<in> set ?zs" "tight ab" "r = race ab"
      by auto
    from adjacent_getLeaderboard [OF ab(1)] ab(2,3) show ?thesis
      by (simp add: race_def tight_def)
  qed
  have "sorted_wrt (\<lambda>p q. rank (fst p) < rank (fst q)) (filter tight ?zs)"
    by (rule sorted_wrt_filter) (rule adjacent_getLeaderboard_sorted)
  then have "sorted_wrt (\<lambda>a b. rank (candidate1 a) < rank (candidate1 b)) (map race (filter tight ?zs))"
    by (simp add: sorted_wrt_map race_def)
  then have ordered: "sorted_wrt (\<lambda>a b. rank (candidate1 a) < rank (candidate1 b))
                        (fst (getTightRaces limit s))"
    unfolding fst_getTightRaces tightRacesSpec_def by (rule sorted_wrt_take)
  have bounded: "int (length (fst (getTightRaces limit s))) \<le> max 0 limit"
    unfolding fst_getTightRaces tightRacesSpec_def by simp
  from each ordered bounded show ?thesis
    by blast
qed

text \<open>In the scenario the one tight race is B (rank 2) against C (rank 3), 5 votes apart.\<close>

theorem getTightRaces_pairs_witness:
  "map (\<lambda>r. (candidateId (candidate1 r), rank (candidate1 r), candidateId (candidate2 r),
              rank (candidate2 r), voteDifference r)) (fst (getTightRaces 10 scenarioABC))
     = [(''B'', 2, ''C'', 3, 5)]
   \<and> rank (candidate2 (fst (getTightRaces 10 scenarioABC) ! 0))
       = rank (candidate1 (fst (getTightRaces 10 scenarioABC) ! 0)) + 1
   \<and> 0 < voteDifference (fst (getTightRaces 10 scenarioABC) ! 0)
   \<and> voteDifference (fst (getTightRaces 10 scenarioABC) ! 0) \<le> 10
   \<and> int (length (fst (getTightRaces 10 scenarioABC))) \<le> 10"
proof -
  let ?rs = "fst (getTightRaces 10 scenarioABC)"
  have out: "map (\<lambda>r. (candidateId (candidate1 r), rank (candidate1 r), candidateId (candidate2 r),
              rank (candidate2 r), voteDifference r)) ?rs
     = [(''B'', 2, ''C'', 3, 5)]"
    by code_simp
  have "length ?rs = 1"
    using arg_cong [OF out, of length] by simp
  then have mem: "?rs ! 0 \<in> set ?rs"
    by simp
  note each = getTightRaces_pairs [of 10 scenarioABC, THEN conjunct1, rule_format, OF mem]
  note bound = getTightRaces_pairs [of 10 scenarioABC, THEN conjunct2, THEN conjunct2]
  from each have "rank (candidate2 (?rs ! 0)) = rank (candidate1 (?rs ! 0)) + 1"
    and "0 < voteDifference (?rs ! 0)" and "voteDifference (?rs ! 0) \<le> 10"
    by simp_all
  moreover from bound have "int (length ?rs) \<le> 10"
    by simp
  ultimately show ?thesis
    using out by simp
qed

section \<open>Rising stars\<close>

lemma slice_prefix:
  "slice 0 e xs = take (nat (if e < 0 then max (int (length xs) + e) 0 else min e (int (length xs)))) xs"
  by (simp add: slice_def Let_def)

lemma slice_take: "0 \<le> e \<Longrightarrow> slice 0 e xs = take (nat e) xs"
  by (simp add: slice_def Let_def min_def)

lemma rising_iff: "rising e \<longleftrightarrow> (\<exists>v. voteChange e = Some v \<and> 0 < v)"
  by (auto simp: rising_def split: option.splits)

lemma sorted_by_voteChange:
  "sorted_wrt (\<lambda>a b. voteChangeOr0 b \<le> voteChangeOr0 a) (sort_key (\<lambda>e. - voteChangeOr0 e) xs)"
proof -
  have "sorted (map (\<lambda>e. - voteChangeOr0 e) (sort_key (\<lambda>e. - voteChangeOr0 e) xs))"
    by (rule sorted_sort_key)
  then show ?thesis
    by (simp add: sorted_map)
qed

lemma fst_getRisingStars:
  "fst (getRisingStars limit s)
     = slice 0 limit (sort_key (\<lambda>e. - voteChangeOr0 e) (filter rising (fst (getLeaderboard 100 s))))"
  by (simp add: getRisingStars_def split: prod.split)

lemma snd_getRisingStars: "snd (getRisingStars limit s) = snd (getLeaderboard 100 s)"
  by (simp add: getRisingStars_def split: prod.split)

text \<open>
  Claim C8. Every entry \<open>getRisingStars\<close> returns is an entry of the snapshot whose
  \<open>voteChange\<close> is strictly positive, so none with a zero or negative change appears; the
  entries are in descending order of \<open>voteChange\<close>; and for a limit that is a count
  (\<open>0 \<le> limit\<close>) the result is the first \<open>limit\<close> entries of a list that holds exactly the
  snapshot entries with positive \<open>voteChange\<close>, each as often as the snapshot does, sorted
  descending.
\<close>

theorem getRisingStars_sorted:
  "(\<forall>e \<in> set (fst (getRisingStars limit s)).
       e \<in> set (fst (getLeaderboard 100 s)) \<and> (\<exists>v. voteChange e = Some v \<and> 0 < v))
   \<and> sorted_wrt (\<lambda>a b. voteChangeOr0 b \<le> voteChangeOr0 a) (fst (getRisingStars limit s))
   \<and> (0 \<le> limit \<longrightarrow>
        (\<exists>full. fst (getRisingStars limit s) = take (nat limit) full
             \<and> mset full = filter_mset (\<lambda>e. \<exists>v. voteChange e = Some v \<and> 0 < v)
                              (mset (fst (getLeaderboard 100 s)))
             \<and> sorted_wrt (\<lambda>a b. voteChangeOr0 b \<le> voteChangeOr0 a) full))"
proof -
  let ?lb = "fst (getLeaderboard 100 s)"
  let ?full = "sort_key (\<lambda>e. - voteChangeOr0 e) (filter rising ?lb)"
  have sorted_full: "sorted_wrt (\<lambda>a b. voteChangeOr0 b \<le> voteChangeOr0 a) ?full"
    by (rule sorted_by_voteChange)
  have mset_full: "mset ?full = filter_mset (\<lambda>e. \<exists>v. voteChange e = Some v \<and> 0 < v) (mset ?lb)"
    by (simp add: rising_iff [abs_def])
  have each: "e \<in> set ?lb \<and> (\<exists>v. voteChange e = Some v \<and> 0 < v)"
    if "e \<in> set (fst (getRisingStars limit s))" for e
  proof -
    from that have "e \<in> set ?full"
      unfolding fst_getRisingStars slice_prefix by (rule in_set_takeD)
    then show ?thesis
      by (simp add: rising_iff)
  qed
  have ordered: "sorted_wrt (\<lambda>a b. voteChangeOr0 b \<le> voteChangeOr0 a) (fst (getRisingStars limit s))"
    unfolding fst_getRisingStars slice_prefix using sorted_full by (rule sorted_wrt_take)
  have cut: "fst (getRisingStars limit s) = take (nat limit) ?full" if "0 \<le> limit"
    unfolding fst_getRisingStars using that by (rule slice_take)
  from each ordered cut mset_full sorted_full show ?thesis
    by blast
qed

text \<open>
  In the state after the scenario, A gained 5 votes and C gained 9: the rising stars are
  C, then A, and with limit 1 only C.
\<close>

theorem getRisingStars_sorted_witness:
  "map (\<lambda>e. (candidateId e, voteChange e)) (fst (getLeaderboard 100 scenarioNext))
     = [(''A'', Some 5), (''C'', Some 9), (''B'', Some 0), (''D'', Some 0)]
   \<and> map (\<lambda>e. (candidateId e, voteChange e)) (fst (getRisingStars 10 scenarioNext))
     = [(''C'', Some 9), (''A'', Some 5)]
   \<and> map (\<lambda>e. (candidateId e, voteChange e)) (fst (getRisingStars 1 scenarioNext))
     = [(''C'', Some 9)]
   \<and> (\<exists>v. voteChange (fst (getRisingStars 10 scenarioNext) ! 1) = Some v \<and> 0 < v)
   \<and> (\<exists>full. fst (getRisingStars 1 scenarioNext) = take 1 full
          \<and> mset full = filter_mset (\<lambda>e. \<exists>v. voteChange e = Some v \<and> 0 < v)
                           (mset (fst (getLeaderboard 100 scenarioNext))))"
proof -
  let ?rs = "fst (getRisingStars 10 scenarioNext)"
  have lb: "map (\<lambda>e. (candidateId e, voteChange e)) (fst (getLeaderboard 100 scenarioNext))
     = [(''A'', Some 5), (''C'', Some 9), (''B'', Some 0), (''D'', Some 0)]"
    by code_simp
  have out: "map (\<lambda>e. (candidateId e, voteChange e)) ?rs
     = [(''C'', Some 9), (''A'', Some 5)]"
    by code_simp
  have one: "map (\<lambda>e. (candidateId e, voteChange e)) (fst (getRisingStars 1 scenarioNext))
     = [(''C'', Some 9)]"
    by code_simp
  have "length ?rs = 2"
    using arg_cong [OF out, of length] by simp
  then have mem: "?rs ! 1 \<in> set ?rs"
    by simp
  have positive: "\<exists>v. voteChange (?rs ! 1) = Some v \<and> 0 < v"
    using getRisingStars_sorted [of 10 scenarioNext, THEN conjunct1, rule_format, OF mem]
    by simp
  have "\<exists>full. fst (getRisingStars 1 scenarioNext) = take (nat 1) full
          \<and> mset full = filter_mset (\<lambda>e. \<exists>v. voteChange e = Some v \<and> 0 < v)
                           (mset (fst (getLeaderboard 100 scenarioNext)))
          \<and> sorted_wrt (\<lambda>a b. voteChangeOr0 b \<le> voteChangeOr0 a) full"
    by (rule getRisingStars_sorted [of 1 scenarioNext, THEN conjunct2, THEN conjunct2, rule_format])
       simp
  then have cut: "\<exists>full. fst (getRisingStars 1 scenarioNext) = take 1 full
          \<and> mset full = filter_mset (\<lambda>e. \<exists>v. voteChange e = Some v \<and> 0 < v)
                           (mset (fst (getLeaderboard 100 scenarioNext)))"
    by auto
  from lb out one positive cut show ?thesis
    by (intro conjI)
qed

section \<open>Rank of one candidate\<close>

lemma distinct_ids_sorted:
  assumes "distinct (map c_id tbl)"
  shows "distinct (map c_id (sort_key orderBy (filter (\<lambda>c. c_status c = APPROVED) tbl)))"
proof -
  have "distinct (map c_id (filter (\<lambda>c. c_status c = APPROVED) tbl))"
    using assms by (rule distinct_map_filter)
  moreover have "mset (map c_id (sort_key orderBy (filter (\<lambda>c. c_status c = APPROVED) tbl)))
                 = mset (map c_id (filter (\<lambda>c. c_status c = APPROVED) tbl))"
    by simp
  ultimately show ?thesis
    by (metis mset_eq_imp_distinct_iff)
qed

lemma beyond_take:
  assumes "distinct (map f xs)" "n \<le> k" "k < length xs"
  shows "f (xs ! k) \<notin> set (map f (take n xs))"
proof
  assume "f (xs ! k) \<in> set (map f (take n xs))"
  then obtain j where j: "j < length (take n xs)" "f (take n xs ! j) = f (xs ! k)"
    by (auto simp: in_set_conv_nth)
  then have "j < n" "j < length xs" "f (xs ! j) = f (xs ! k)"
    by simp_all
  with assms have "j = k"
    by (simp add: distinct_conv_nth)
  with \<open>j < n\<close> \<open>n \<le> k\<close> show False
    by simp
qed

lemma fst_getCandidateRank:
  "fst (getCandidateRank cid s)
     = \<lparr> entry = find (\<lambda>e. candidateId e = cid) (fst (getLeaderboard 100 s)),
         total = countApproved (candidate_tbl s) \<rparr>"
  by (simp add: getCandidateRank_def getLeaderboard_def Let_def)

text \<open>
  Claim C10. Candidate ids are the primary key of the table, so they are distinct. Then
  for every approved candidate that the full ranking places after position 100 (index
  \<open>k \<ge> 100\<close> of the sorted approved rows, which exists only when more than 100 are
  approved), \<open>getCandidateRank\<close> returns no entry, and a total that counts all approved
  candidates and is above 100.
\<close>

theorem getCandidateRank_beyond_100:
  assumes "distinct (map c_id (candidate_tbl s))"
    and "100 \<le> k"
    and "k < length (sort_key orderBy (filter (\<lambda>c. c_status c = APPROVED) (candidate_tbl s)))"
  shows "entry (fst (getCandidateRank
                  (c_id (sort_key orderBy (filter (\<lambda>c. c_status c = APPROVED) (candidate_tbl s)) ! k)) s))
           = None
       \<and> total (fst (getCandidateRank
                  (c_id (sort_key orderBy (filter (\<lambda>c. c_status c = APPROVED) (candidate_tbl s)) ! k)) s))
           = countApproved (candidate_tbl s)
       \<and> 100 < countApproved (candidate_tbl s)"
proof -
  let ?ranked = "sort_key orderBy (filter (\<lambda>c. c_status c = APPROVED) (candidate_tbl s))"
  let ?cid = "c_id (?ranked ! k)"
  have "distinct (map c_id ?ranked)"
    using assms(1) by (rule distinct_ids_sorted)
  then have "?cid \<notin> set (map c_id (take 100 ?ranked))"
    using assms(2,3) by (rule beyond_take)
  then have "?cid \<notin> set (map candidateId (fst (getLeaderboard 100 s)))"
    by (simp add: map_fields_getLeaderboard findManyApproved_def)
  then have "find (\<lambda>e. candidateId e = ?cid) (fst (getLeaderboard 100 s)) = None"
    by (force simp: find_None_iff)
  moreover have "100 < countApproved (candidate_tbl s)"
    using assms(2,3) by (simp add: countApproved_def)
  ultimately show ?thesis
    by (simp add: fst_getCandidateRank)
qed

lemma distinct_crowd: "distinct (map c_id (crowd n))"
proof -
  have "map c_id (crowd n) = map (\<lambda>k. replicate (Suc k) CHR ''c'') [0..<n]"
    by (simp add: crowd_def mkCandidate_def)
  moreover have "inj_on (\<lambda>k. replicate (Suc k) CHR ''c'') (set [0..<n])"
    by (rule inj_onI) (metis length_replicate nat.inject)
  ultimately show ?thesis
    by (simp add: distinct_map)
qed

lemma sorted_crowd: "sort_key orderBy (crowd n) = crowd n"
proof (rule sort_key_id_if_sorted)
  have "map orderBy (crowd n) = map (\<lambda>k. (0, 0, k)) [0..<n]"
    by (simp add: crowd_def mkCandidate_def orderBy_def)
  moreover have "sorted_wrt (\<lambda>a b. ((0::int), (0::int), a) \<le> (0, 0, b)) [0..<n]"
    by (rule sorted_wrt_mono_rel [OF _ sorted_wrt_upt]) simp
  ultimately show "sorted (map orderBy (crowd n))"
    by (simp add: sorted_map)
qed

text \<open>
  With 101 approved candidates, the one created last is at index 100 of the ranking: no
  entry is found for it, and the total is 101.
\<close>

theorem getCandidateRank_beyond_100_witness:
  "distinct (map c_id (candidate_tbl (initial (crowd 101))))
   \<and> c_status (crowd 101 ! 100) = APPROVED
   \<and> c_id (crowd 101 ! 100) = replicate 101 CHR ''c''
   \<and> fst (getCandidateRank (replicate 101 CHR ''c'') (initial (crowd 101)))
       = \<lparr> entry = None, total = 101 \<rparr>"
proof -
  let ?s = "initial (crowd 101)"
  have tbl: "candidate_tbl ?s = crowd 101"
    by (simp add: initial_def)
  have ranked: "sort_key orderBy (filter (\<lambda>c. c_status c = APPROVED) (candidate_tbl ?s)) = crowd 101"
    by (simp only: tbl filter_crowd sorted_crowd)
  have d: "distinct (map c_id (candidate_tbl ?s))"
    by (simp only: tbl distinct_crowd)
  have k: "(100::nat) \<le> 100"
    "100 < length (sort_key orderBy (filter (\<lambda>c. c_status c = APPROVED) (candidate_tbl ?s)))"
    by (simp_all only: ranked length_crowd)
  have last: "crowd 101 ! 100 = mkCandidate (CHR ''c'' # replicate 100 CHR ''c'') 0 0 100"
    by (simp add: crowd_def)
  have count: "countApproved (candidate_tbl ?s) = 101"
    by (simp add: countApproved_def tbl filter_crowd length_crowd)
  have r: "replicate 101 CHR ''c'' = CHR ''c'' # replicate 100 CHR ''c''"
    using replicate_Suc [of 100 "CHR ''c''"] by simp
  from getCandidateRank_beyond_100 [OF d k] d last count show ?thesis
    unfolding ranked by (simp add: mkCandidate_def r)
qed

section \<open>What a query does to the stored snapshot\<close>

lemma fst_getTopCandidates:
  "fst (getTopCandidates limit s) = slice 0 limit (fst (getLeaderboard 100 s))"
  by (simp add: getTopCandidates_def split: prod.split)

lemma snd_getTopCandidates: "snd (getTopCandidates limit s) = snd (getLeaderboard 100 s)"
  by (simp add: getTopCandidates_def split: prod.split)

lemma snd_getCandidateRank: "snd (getCandidateRank cid s) = snd (getLeaderboard 100 s)"
  by (simp add: getCandidateRank_def Let_def split: prod.split)

lemma getLeaderboard_frame:
  "cachedLeaderboard (snd (getLeaderboard limit s)) = fst (getLeaderboard limit s)"
  "lastUpdate (snd (getLeaderboard limit s)) = now s"
  "candidate_tbl (snd (getLeaderboard limit s)) = candidate_tbl s"
  "vote_tbl (snd (getLeaderboard limit s)) = vote_tbl s"
  "transaction_tbl (snd (getLeaderboard limit s)) = transaction_tbl s"
  "emitted (snd (getLeaderboard limit s)) = emitted s"
  "gatewayInjected (snd (getLeaderboard limit s)) = gatewayInjected s"
  "now (snd (getLeaderboard limit s)) = now s"
  by (simp_all add: snd_getLeaderboard)

text \<open>
  Claim C4, as amended. Each of \<open>getTopCandidates\<close>, \<open>getCandidateRank\<close>, \<open>getTightRaces\<close>
  and \<open>getRisingStars\<close> begins with \<open>getLeaderboard(100)\<close>: it leaves the state that call
  leaves, in which the stored snapshot is the ranking just read from the candidate table
  (its ids and votes are those of the first 100 approved rows in sort order), the tables
  and the emitted messages are untouched, and the answer is computed from that new snapshot.
\<close>

theorem adhoc_queries_recompute:
  "snd (getTopCandidates limit s) = snd (getLeaderboard 100 s)
   \<and> snd (getCandidateRank cid s) = snd (getLeaderboard 100 s)
   \<and> snd (getTightRaces limit s) = snd (getLeaderboard 100 s)
   \<and> snd (getRisingStars limit s) = snd (getLeaderboard 100 s)
   \<and> cachedLeaderboard (snd (getLeaderboard 100 s)) = fst (getLeaderboard 100 s)
   \<and> map candidateId (fst (getLeaderboard 100 s)) = map c_id (findManyApproved (candidate_tbl s) 100)
   \<and> map totalVotes (fst (getLeaderboard 100 s))
        = map c_totalVotes (findManyApproved (candidate_tbl s) 100)
   \<and> candidate_tbl (snd (getLeaderboard 100 s)) = candidate_tbl s
   \<and> vote_tbl (snd (getLeaderboard 100 s)) = vote_tbl s
   \<and> transaction_tbl (snd (getLeaderboard 100 s)) = transaction_tbl s
   \<and> emitted (snd (getLeaderboard 100 s)) = emitted s
   \<and> fst (getTopCandidates limit s) = slice 0 limit (fst (getLeaderboard 100 s))
   \<and> fst (getCandidateRank cid s)
        = \<lparr> entry = find (\<lambda>e. candidateId e = cid) (fst (getLeaderboard 100 s)),
            total = countApproved (candidate_tbl s) \<rparr>
   \<and> fst (getTightRaces limit s) = tightRacesSpec (fst (getLeaderboard 100 s)) limit
   \<and> fst (getRisingStars limit s)
        = slice 0 limit (sort_key (\<lambda>e. - voteChangeOr0 e)
                           (filter rising (fst (getLeaderboard 100 s))))"
  by (simp only: snd_getTopCandidates snd_getCandidateRank snd_getTightRaces snd_getRisingStars
        getLeaderboard_frame map_fields_getLeaderboard fst_getTopCandidates fst_getCandidateRank
        fst_getTightRaces fst_getRisingStars simp_thms)

text \<open>
  Claim C4 as stated fails. In the state after the scenario the stored snapshot ranks
  A, B, C while the table ranks A, C, B, D: each of the four queries replaces the stored
  snapshot, and the top 3 returned are those of the table, not of the snapshot held.
\<close>

theorem adhoc_queries_counterexample:
  "cachedLeaderboard (snd (getTopCandidates 3 scenarioNext)) \<noteq> cachedLeaderboard scenarioNext
   \<and> cachedLeaderboard (snd (getCandidateRank ''C'' scenarioNext)) \<noteq> cachedLeaderboard scenarioNext
   \<and> cachedLeaderboard (snd (getTightRaces 10 scenarioNext)) \<noteq> cachedLeaderboard scenarioNext
   \<and> cachedLeaderboard (snd (getRisingStars 10 scenarioNext)) \<noteq> cachedLeaderboard scenarioNext
   \<and> map candidateId (fst (getTopCandidates 3 scenarioNext))
        \<noteq> map candidateId (slice 0 3 (cachedLeaderboard scenarioNext))"
proof -
  have new: "map candidateId (fst (getLeaderboard 100 scenarioNext)) = [''A'', ''C'', ''B'', ''D'']"
    by code_simp
  have old: "map candidateId (cachedLeaderboard scenarioNext) = [''A'', ''B'', ''C'']"
    by code_simp
  have "map candidateId (fst (getLeaderboard 100 scenarioNext))
          \<noteq> map candidateId (cachedLeaderboard scenarioNext)"
    unfolding new old by simp
  then have differ: "fst (getLeaderboard 100 scenarioNext) \<noteq> cachedLeaderboard scenarioNext"
    by auto
  have top: "map candidateId (fst (getTopCandidates 3 scenarioNext)) = [''A'', ''C'', ''B'']"
    by code_simp
  have held: "map candidateId (slice 0 3 (cachedLeaderboard scenarioNext)) = [''A'', ''B'', ''C'']"
    by code_simp
  have "map candidateId (fst (getTopCandidates 3 scenarioNext))
          \<noteq> map candidateId (slice 0 3 (cachedLeaderboard scenarioNext))"
    unfolding top held by simp
  with differ show ?thesis
    by (simp add: snd_getTopCandidates snd_getCandidateRank snd_getTightRaces snd_getRisingStars
          getLeaderboard_frame)
qed

section \<open>Payment confirmation\<close>



lemma confirmPayment_unmatched:
  "find (\<lambda>v. v_providerTxId v = Some ref) (vote_tbl s) = None
   \<Longrightarrow> confirmPayment ref status payload s = (Inr None, s)"
  by (simp add: confirmPayment_def)














section \<open>Overlapping deliveries\<close>

lemma find_Some_mem: "find P xs = Some x \<Longrightarrow> x \<in> set xs \<and> P x"
  by (induction xs) (auto split: if_splits)








lemma find_by_id:
  assumes "distinct (map f xs)" "x \<in> set xs"
  shows "find (\<lambda>y. f y = f x) xs = Some x"
  using assms by (induction xs) (auto simp: image_iff)

text \<open>
  A call that nothing interleaves with does what \<open>confirmPayment\<close> does when run
  undivided: six answers are enough for its longest path.
\<close>

lemma serve_alone:
  assumes "distinct (map v_id (vote_tbl s))"
  shows "serve [Deliver ref status payload, Answer 0, Answer 0, Answer 0, Answer 0, Answer 0, Answer 0]
           (idleServer s)
         = \<lparr> db = snd (confirmPayment ref status payload s),
             calls = [Returned (fst (confirmPayment ref status payload s))] \<rparr>"
proof (cases "find (\<lambda>v. v_providerTxId v = Some ref) (vote_tbl s)")
  case None
  then show ?thesis
    by (simp add: idleServer_def confirmPayment_def)
next
  case (Some vote)
  then have "vote \<in> set (vote_tbl s)"
    by (simp add: find_Some_mem)
  with assms have row: "find (\<lambda>v. v_id v = v_id vote) (vote_tbl s) = Some vote"
    by (rule find_by_id)
  show ?thesis
  proof (cases "v_paymentStatus vote = COMPLETED")
    case True
    with Some show ?thesis
      by (simp add: idleServer_def confirmPayment_def)
  next
    case False
    show ?thesis
    proof (cases "find (\<lambda>t. t_voteId t = v_id vote) (transaction_tbl s)")
      case None
      with Some False row show ?thesis
        by (simp add: idleServer_def confirmPayment_def afterTransaction_def Let_def
              triggerUpdate_def broadcastLeaderboardUpdate_def refreshLeaderboard_def
              getLeaderboard_def getStats_def)
    next
      case t: (Some t)
      then have "t_id t \<in> t_id ` set (transaction_tbl s)"
        using find_Some_mem [of "\<lambda>t. t_voteId t = v_id vote" "transaction_tbl s" t] by simp
      with Some False row t show ?thesis
        by (simp add: idleServer_def confirmPayment_def afterTransaction_def Let_def
              triggerUpdate_def broadcastLeaderboardUpdate_def refreshLeaderboard_def
              getLeaderboard_def getStats_def)
    qed
  qed
qed




section \<open>Recompute passes in flight\<close>

text \<open>
  An answer of the database moves a pass on or ends it with a broadcast; either way the
  passes in flight and the broadcasts made add up to what they were.
\<close>

lemma resume_count:
  "length (inFlight (resume k g)) + length (emitted (world (resume k g)))
     = length (inFlight g) + length (emitted (world g))"
proof (cases "k < length (inFlight g)")
  case False
  then show ?thesis
    by (simp add: resume_def)
next
  case True
  show ?thesis
  proof (cases "inFlight g ! k")
    case AwaitFindMany
    with True show ?thesis
      by (simp add: resume_def getLeaderboard_def Let_def)
  next
    case (AwaitAggregate leaderboard)
    with True show ?thesis
      by (simp add: resume_def Let_def min_def)
  qed
qed

lemma step_count:
  "length (inFlight (step e g)) + length (emitted (world (step e g)))
     = length (inFlight g) + length (emitted (world g)) + (if starts e then 1 else 0)"
  by (cases e) (simp_all add: resume_count)

lemma run_count:
  "length (inFlight (run es g)) + length (emitted (world (run es g)))
     = length (inFlight g) + length (emitted (world g)) + length (filter starts es)"
  by (induction es arbitrary: g) (simp_all add: step_count)

text \<open>
  A pass that nothing interleaves with does what \<open>triggerUpdate\<close> does when run undivided.
\<close>

lemma run_alone: "run [TriggerUpdate, Resume 0, Resume 0] (idle s) = idle (triggerUpdate s)"
  by (simp add: idle_def resume_def triggerUpdate_def broadcastLeaderboardUpdate_def
        refreshLeaderboard_def getLeaderboard_def Let_def getStats_def)

text \<open>
  Claim C9, as amended. The gateway keeps no flag for a pass in progress: a tick and a
  call of \<open>triggerUpdate\<close> each put a new pass in flight beside whatever is in flight
  already, and leave the rest untouched. Over any sequence of events, the passes in flight
  plus the broadcasts made grow by exactly the number of ticks and triggers: every request
  becomes a pass of its own, none is dropped and none is merged with another.
\<close>

theorem every_trigger_starts_a_pass:
  "(starts e \<longrightarrow> inFlight (step e g) = inFlight g @ [AwaitFindMany] \<and> world (step e g) = world g)
   \<and> length (inFlight (run es g)) + length (emitted (world (run es g)))
       = length (inFlight g) + length (emitted (world g)) + length (filter starts es)"
proof -
  have "inFlight (step e g) = inFlight g @ [AwaitFindMany] \<and> world (step e g) = world g"
    if "starts e"
    using that by (cases e) simp_all
  then show ?thesis
    by (simp add: run_count)
qed

text \<open>
  Claim C9 as stated fails: a tick and a trigger arriving together leave two passes in
  flight at once, and when the database has answered both, two broadcasts have been made.
\<close>

theorem single_flight_counterexample:
  "inFlight (run [Tick, TriggerUpdate] (idle scenarioABC)) = [AwaitFindMany, AwaitFindMany]
   \<and> inFlight (run [Tick, TriggerUpdate, Resume 0, Resume 1, Resume 0, Resume 0] (idle scenarioABC)) = []
   \<and> length (emitted (world (run [Tick, TriggerUpdate, Resume 0, Resume 1, Resume 0, Resume 0]
                                 (idle scenarioABC)))) = 2"
proof -
  have "inFlight (run [Tick, TriggerUpdate] (idle scenarioABC)) = [AwaitFindMany, AwaitFindMany]"
    by (simp add: idle_def)
  moreover
  have "inFlight (run [Tick, TriggerUpdate, Resume 0, Resume 1, Resume 0, Resume 0] (idle scenarioABC)) = []"
    by code_simp
  moreover
  have "length (emitted (world (run [Tick, TriggerUpdate, Resume 0, Resume 1, Resume 0, Resume 0]
                                 (idle scenarioABC)))) = 2"
    by code_simp
  ultimately show ?thesis
    by simp
qed

text \<open>
  From an idle gateway, a tick and then a trigger give two passes in flight; after the
  first of them has completed, one is in flight and one broadcast is made.
\<close>

theorem every_trigger_starts_a_pass_witness:
  "starts Tick \<and> starts TriggerUpdate
   \<and> inFlight (step TriggerUpdate (step Tick (idle scenarioABC))) = [AwaitFindMany, AwaitFindMany]
   \<and> length (inFlight (run [Tick, TriggerUpdate, Resume 0, Resume 0] (idle scenarioABC)))
       + length (emitted (world (run [Tick, TriggerUpdate, Resume 0, Resume 0] (idle scenarioABC))))
     = 2"
proof -
  have t: "starts Tick" "starts TriggerUpdate"
    by simp_all
  have "inFlight (step Tick (idle scenarioABC)) = [AwaitFindMany]"
    using every_trigger_starts_a_pass [of Tick "idle scenarioABC" "[]"] t
    by (simp add: idle_def)
  then have two: "inFlight (step TriggerUpdate (step Tick (idle scenarioABC)))
                    = [AwaitFindMany, AwaitFindMany]"
    using every_trigger_starts_a_pass [of TriggerUpdate "step Tick (idle scenarioABC)" "[]"] t
    by simp
  have "length (inFlight (run [Tick, TriggerUpdate, Resume 0, Resume 0] (idle scenarioABC)))
       + length (emitted (world (run [Tick, TriggerUpdate, Resume 0, Resume 0] (idle scenarioABC))))
     = 2"
    using every_trigger_starts_a_pass [of Tick "idle scenarioABC"
            "[Tick, TriggerUpdate, Resume 0, Resume 0]"]
    by (simp add: idle_def scenarioABC_def initial_def)
  with t two show ?thesis
    by simp
qed

end
